theory Spec2Isabelle
  imports Main "HOL-Library.Word"
begin

section \<open>Data model\<close>

text \<open>
  The simulation coordinates vehicle threads at one intersection. The two source files
  are \<^verbatim>\<open>Intersection.cpp\<close> (classes \<^verbatim>\<open>WaitingVehicles\<close> and \<^verbatim>\<open>Intersection\<close>) and
  \<^verbatim>\<open>TrafficLight.cpp\<close> (classes \<^verbatim>\<open>MessageQueue<T>\<close> and \<^verbatim>\<open>TrafficLight\<close>). Every method
  body is embedded as a function on an explicit state. A method that runs under a
  \<^verbatim>\<open>std::lock_guard\<close> is one atomic function; console output is not part of the state.
  Private members lose their leading underscore (\<^verbatim>\<open>_vehicles\<close> is \<open>vehicles\<close>).
\<close>

text \<open>
  Modelled from the spec: the enumeration \<^verbatim>\<open>TrafficLightPhase\<close> is declared in
  \<^verbatim>\<open>TrafficLight.h\<close>, which is not among the sources; the spec gives it the two values
  Red and Green, and the code uses the enumerators \<^verbatim>\<open>red\<close> and \<^verbatim>\<open>green\<close>.
\<close>

datatype TrafficLightPhase = red | green

text \<open>
  What the C++ standard leaves undefined or makes throw is a value of \<open>error\<close>:
  dereferencing or erasing \<^verbatim>\<open>begin()\<close> of an empty vector, dereferencing a null
  \<^verbatim>\<open>shared_ptr\<close>, and the two \<^verbatim>\<open>std::future_error\<close> conditions of
  \<^verbatim>\<open>std::promise::set_value\<close>.
\<close>

datatype error =
    EmptyFrontAccess
  | NullDereference
  | PromiseAlreadySatisfied
  | NoSharedState

text \<open>
  A \<^verbatim>\<open>std::promise<void>\<close> is move-only: it is the one handle through which its shared
  state can be made ready. \<open>Promise i\<close> owns shared state \<open>i\<close>; \<open>NoState\<close> is a
  moved-from promise. The shared states live outside the queue (the waiting thread holds
  the \<^verbatim>\<open>std::future\<close>), so they are a store of their own: the list of shared states that
  have been made ready, in the order of the \<^verbatim>\<open>set_value\<close> calls.
\<close>

datatype promise = Promise nat | NoState

type_synonym shared_states = "nat list"

definition set_value :: "promise \<Rightarrow> shared_states \<Rightarrow> error + shared_states" where
  "set_value p ready =
     (case p of
        NoState \<Rightarrow> Inl NoSharedState
      | Promise i \<Rightarrow> if i \<in> set ready then Inl PromiseAlreadySatisfied else Inr (ready @ [i]))"

text \<open>\<^verbatim>\<open>std::future::wait\<close> returns once the shared state is ready.\<close>

definition is_ready :: "shared_states \<Rightarrow> nat \<Rightarrow> bool" where
  "is_ready ready i = (i \<in> set ready)"

subsection \<open>WaitingVehicles\<close>

record 'v WaitingVehicles =
  vehicles :: "'v list"
  promises :: "promise list"

definition no_vehicles :: "'v WaitingVehicles" where
  "no_vehicles = \<lparr>vehicles = [], promises = []\<rparr>"

text \<open>
  \<^verbatim>\<open>int WaitingVehicles::getSize()\<close> returns \<^verbatim>\<open>_vehicles.size()\<close>: the \<^verbatim>\<open>size_t\<close> is
  narrowed to a 32-bit \<^verbatim>\<open>int\<close>.
\<close>

definition getSize :: "'v WaitingVehicles \<Rightarrow> int" where
  "getSize q = sint (word_of_nat (length (vehicles q)) :: 32 word)"

definition pushBack :: "'v \<Rightarrow> promise \<Rightarrow> 'v WaitingVehicles \<Rightarrow> 'v WaitingVehicles" where
  "pushBack vehicle p q =
     q\<lparr>vehicles := vehicles q @ [vehicle], promises := promises q @ [p]\<rparr>"

text \<open>
  \<^verbatim>\<open>permitEntryToFirstInQueue\<close>: \<^verbatim>\<open>firstPromise->set_value()\<close> comes first (undefined on
  an empty \<^verbatim>\<open>_promises\<close>, throwing on a promise that cannot be set), then the two
  \<^verbatim>\<open>erase\<close> calls at \<^verbatim>\<open>begin()\<close>.
\<close>

definition permitEntryToFirstInQueue ::
  "'v WaitingVehicles \<times> shared_states \<Rightarrow> error + ('v WaitingVehicles \<times> shared_states)" where
  "permitEntryToFirstInQueue s =
     (let q = fst s; ready = snd s in
      case promises q of
        [] \<Rightarrow> Inl EmptyFrontAccess
      | firstPromise # ps \<Rightarrow>
          (case set_value firstPromise ready of
             Inl e \<Rightarrow> Inl e
           | Inr ready' \<Rightarrow>
               (case vehicles q of
                  [] \<Rightarrow> Inl EmptyFrontAccess
                | firstVehicle # vs \<Rightarrow> Inr (q\<lparr>vehicles := vs, promises := ps\<rparr>, ready'))))"

text \<open>A history of calls on one \<^verbatim>\<open>WaitingVehicles\<close> object, run in order.\<close>

datatype 'v wv_op = PushBack 'v promise | PermitEntry

fun run_ops ::
  "'v wv_op list \<Rightarrow> 'v WaitingVehicles \<times> shared_states \<Rightarrow>
     error + ('v WaitingVehicles \<times> shared_states)" where
  "run_ops [] s = Inr s"
| "run_ops (PushBack v p # ops) s = run_ops ops (pushBack v p (fst s), snd s)"
| "run_ops (PermitEntry # ops) s =
     (case permitEntryToFirstInQueue s of Inl e \<Rightarrow> Inl e | Inr s' \<Rightarrow> run_ops ops s')"

text \<open>The requests of a history in arrival order, and its number of grants.\<close>

fun enqueued :: "'v wv_op list \<Rightarrow> ('v \<times> promise) list" where
  "enqueued [] = []"
| "enqueued (PushBack v p # ops) = (v, p) # enqueued ops"
| "enqueued (PermitEntry # ops) = enqueued ops"

fun grants :: "'v wv_op list \<Rightarrow> nat" where
  "grants [] = 0"
| "grants (PushBack v p # ops) = grants ops"
| "grants (PermitEntry # ops) = Suc (grants ops)"

text \<open>The requests still waiting: vehicle and promise at the same position.\<close>

definition waiting :: "'v WaitingVehicles \<Rightarrow> ('v \<times> promise) list" where
  "waiting q = zip (vehicles q) (promises q)"

subsection \<open>MessageQueue\<close>

text \<open>
  \<^verbatim>\<open>MessageQueue<T>\<close> keeps its messages in \<^verbatim>\<open>_messages\<close>; \<^verbatim>\<open>send\<close> is
  \<^verbatim>\<open>push_back\<close>, \<^verbatim>\<open>receive\<close> waits on the condition variable while \<^verbatim>\<open>_messages\<close> is
  empty and then takes \<^verbatim>\<open>back()\<close> and calls \<^verbatim>\<open>pop_back()\<close>. A \<^verbatim>\<open>receive\<close> on an
  empty queue is \<open>None\<close>: the caller stays blocked. The 100 ms sleep of \<^verbatim>\<open>send\<close> is
  outside the lock and has no effect on the state.
\<close>

record 'a MessageQueue =
  messages :: "'a list"

definition no_messages :: "'a MessageQueue" where
  "no_messages = \<lparr>messages = []\<rparr>"

definition receive :: "'a MessageQueue \<Rightarrow> ('a \<times> 'a MessageQueue) option" where
  "receive mq =
     (if messages mq = [] then None
      else Some (last (messages mq), mq\<lparr>messages := butlast (messages mq)\<rparr>))"

definition send :: "'a \<Rightarrow> 'a MessageQueue \<Rightarrow> 'a MessageQueue" where
  "send msg mq = mq\<lparr>messages := messages mq @ [msg]\<rparr>"

text \<open>Sending a list of values in order, and \<open>n\<close> receives in a row by one receiver.\<close>

fun send_all :: "'a list \<Rightarrow> 'a MessageQueue \<Rightarrow> 'a MessageQueue" where
  "send_all [] mq = mq"
| "send_all (msg # msgs) mq = send_all msgs (send msg mq)"

fun receive_n :: "nat \<Rightarrow> 'a MessageQueue \<Rightarrow> ('a list \<times> 'a MessageQueue) option" where
  "receive_n 0 mq = Some ([], mq)"
| "receive_n (Suc n) mq =
     (case receive mq of
        None \<Rightarrow> None
      | Some (msg, mq') \<Rightarrow>
          (case receive_n n mq' of
             None \<Rightarrow> None
           | Some (msgs, mq'') \<Rightarrow> Some (msg # msgs, mq'')))"

subsection \<open>TrafficLight\<close>

record TrafficLight =
  currentPhase :: TrafficLightPhase
  queue :: "TrafficLightPhase MessageQueue"

text \<open>The constructor \<^verbatim>\<open>TrafficLight::TrafficLight()\<close>.\<close>

definition new_TrafficLight :: TrafficLight where
  "new_TrafficLight = \<lparr>currentPhase = red, queue = no_messages\<rparr>"

definition getCurrentPhase :: "TrafficLight \<Rightarrow> TrafficLightPhase" where
  "getCurrentPhase light = currentPhase light"

text \<open>
  One pass of the loop of \<^verbatim>\<open>waitForGreen\<close>: \<^verbatim>\<open>_queue.receive()\<close>, then the test
  \<^verbatim>\<open>phase == green\<close>. The result is the value received (\<open>None\<close> while the receive
  blocks) and the traffic light after the receive; the loop is left when the value is
  \<open>Some green\<close>.
\<close>

definition waitForGreen_pass :: "TrafficLight \<Rightarrow> TrafficLightPhase option \<times> TrafficLight" where
  "waitForGreen_pass light =
     (case receive (queue light) of
        None \<Rightarrow> (None, light)
      | Some (phase, mq) \<Rightarrow> (Some phase, light\<lparr>queue := mq\<rparr>))"

text \<open>
  The branch of \<^verbatim>\<open>cycleThroughPhases\<close> taken when the phase duration has elapsed
  (lines 114 to 122): flip \<^verbatim>\<open>_currentPhase\<close>, then send it.
\<close>

definition togglePhase :: "TrafficLight \<Rightarrow> TrafficLight" where
  "togglePhase light =
     (let light' = (if currentPhase light = red then light\<lparr>currentPhase := green\<rparr>
                 else light\<lparr>currentPhase := red\<rparr>)
      in light'\<lparr>queue := send (currentPhase light') (queue light')\<rparr>)"

subsection \<open>Intersection\<close>

text \<open>
  A \<^verbatim>\<open>std::shared_ptr<Street>\<close> is \<open>'s option\<close>, \<open>None\<close> the null pointer; \<open>'s\<close> is
  the street object it points to and \<open>'v\<close> stands for \<^verbatim>\<open>std::shared_ptr<Vehicle>\<close>,
  which the code only stores. \<^verbatim>\<open>Street::getID\<close> comes from a base class that is not
  among the sources: it is the parameter \<open>getID\<close>.
\<close>

record ('v, 's) Intersection =
  streets :: "'s option list"
  waitingVehicles :: "'v WaitingVehicles"
  isBlocked :: bool
  trafficLight :: TrafficLight

text \<open>The constructor \<^verbatim>\<open>Intersection::Intersection()\<close>.\<close>

definition new_Intersection :: "('v, 's) Intersection" where
  "new_Intersection =
     \<lparr>streets = [], waitingVehicles = no_vehicles, isBlocked = False,
      trafficLight = new_TrafficLight\<rparr>"

definition addStreet :: "'s option \<Rightarrow> ('v, 's) Intersection \<Rightarrow> ('v, 's) Intersection" where
  "addStreet street i = i\<lparr>streets := streets i @ [street]\<rparr>"

text \<open>
  The loop of \<^verbatim>\<open>queryStreets\<close> over \<^verbatim>\<open>_streets\<close>, with \<^verbatim>\<open>outgoings\<close> as accumulator.
  Each pass dereferences \<^verbatim>\<open>incoming\<close> and the element.
\<close>

fun queryStreets_loop ::
  "('s \<Rightarrow> int) \<Rightarrow> 's option \<Rightarrow> 's option list \<Rightarrow> 's option list \<Rightarrow> error + 's option list" where
  "queryStreets_loop getID incoming [] outgoings = Inr outgoings"
| "queryStreets_loop getID incoming (it # rest) outgoings =
     (case incoming of
        None \<Rightarrow> Inl NullDereference
      | Some inc \<Rightarrow>
          (case it of
             None \<Rightarrow> Inl NullDereference
           | Some st \<Rightarrow>
               if getID inc \<noteq> getID st
               then queryStreets_loop getID incoming rest (outgoings @ [it])
               else queryStreets_loop getID incoming rest outgoings))"

definition queryStreets ::
  "('s \<Rightarrow> int) \<Rightarrow> 's option \<Rightarrow> ('v, 's) Intersection \<Rightarrow>
     error + (('v, 's) Intersection \<times> 's option list)" where
  "queryStreets getID incoming i =
     (case queryStreets_loop getID incoming (streets i) [] of
        Inl e \<Rightarrow> Inl e
      | Inr outgoings \<Rightarrow> Inr (i, outgoings))"

definition setIsBlocked :: "bool \<Rightarrow> ('v, 's) Intersection \<Rightarrow> ('v, 's) Intersection" where
  "setIsBlocked b i = i\<lparr>isBlocked := b\<rparr>"

definition vehicleHasLeft :: "'v \<Rightarrow> ('v, 's) Intersection \<Rightarrow> ('v, 's) Intersection" where
  "vehicleHasLeft vehicle i = setIsBlocked False i"

text \<open>
  One pass of the \<^verbatim>\<open>while (true)\<close> loop of \<^verbatim>\<open>processVehicleQueue\<close> (after the 1 ms
  sleep): the test, \<^verbatim>\<open>setIsBlocked(true)\<close>, then \<^verbatim>\<open>permitEntryToFirstInQueue()\<close>.
\<close>

definition processVehicleQueue_pass ::
  "('v, 's) Intersection \<times> shared_states \<Rightarrow> error + (('v, 's) Intersection \<times> shared_states)" where
  "processVehicleQueue_pass s =
     (let i = fst s; ready = snd s in
      if getSize (waitingVehicles i) > 0 \<and> \<not> isBlocked i
      then (let i' = setIsBlocked True i in
            case permitEntryToFirstInQueue (waitingVehicles i', ready) of
              Inl e \<Rightarrow> Inl e
            | Inr (q, ready') \<Rightarrow> Inr (i'\<lparr>waitingVehicles := q\<rparr>, ready'))
      else Inr s)"

definition trafficLightIsGreen :: "('v, 's) Intersection \<Rightarrow> bool" where
  "trafficLightIsGreen i = (if getCurrentPhase (trafficLight i) = green then True else False)"

subsection \<open>The running simulation\<close>

text \<open>
  The state shared by the threads of one intersection: the \<^verbatim>\<open>Intersection\<close> object, the
  shared states that are ready, and how many shared states have been created (a new
  \<^verbatim>\<open>std::promise<void>\<close> gets the next one).
\<close>

record ('v, 's) world =
  isect :: "('v, 's) Intersection"
  fulfilled :: shared_states
  created :: nat

definition new_world :: "('v, 's) world" where
  "new_world = \<lparr>isect = new_Intersection, fulfilled = [], created = 0\<rparr>"

text \<open>
  Lines 121 to 123 of \<^verbatim>\<open>addVehicleToQueue\<close>: a new promise, its future, and
  \<^verbatim>\<open>pushBack\<close> of the vehicle with the promise. The result names the shared state the
  caller's future waits on.
\<close>

definition enqueue_new :: "'v \<Rightarrow> ('v, 's) world \<Rightarrow> nat \<times> ('v, 's) world" where
  "enqueue_new vehicle w =
     (created w,
      w\<lparr>isect := (isect w)\<lparr>waitingVehicles :=
             pushBack vehicle (Promise (created w)) (waitingVehicles (isect w))\<rparr>,
        created := Suc (created w)\<rparr>)"

text \<open>One pass of \<^verbatim>\<open>waitForGreen\<close> on the traffic light of the intersection.\<close>

definition receive_phase :: "('v, 's) world \<Rightarrow> TrafficLightPhase option \<times> ('v, 's) world" where
  "receive_phase w =
     (case waitForGreen_pass (trafficLight (isect w)) of
        (r, light') \<Rightarrow> (r, w\<lparr>isect := (isect w)\<lparr>trafficLight := light'\<rparr>\<rparr>))"

text \<open>
  What the threads do to the shared state, one atomic step each: a pass of the admission
  loop, \<^verbatim>\<open>vehicleHasLeft\<close>, the enqueueing and the receives of a call of
  \<^verbatim>\<open>addVehicleToQueue\<close>, a phase change of the traffic light, \<^verbatim>\<open>addStreet\<close>.
  \<^verbatim>\<open>setIsBlocked\<close> has no caller but \<^verbatim>\<open>processVehicleQueue\<close> and \<^verbatim>\<open>vehicleHasLeft\<close>.
\<close>

datatype ('v, 's) action =
    ProcessVehicleQueue
  | VehicleHasLeft 'v
  | EnqueueNew 'v
  | ReceivePhase
  | TogglePhase
  | AddStreet "'s option"

fun system_step :: "('v, 's) action \<Rightarrow> ('v, 's) world \<Rightarrow> error + ('v, 's) world" where
  "system_step ProcessVehicleQueue w =
     (case processVehicleQueue_pass (isect w, fulfilled w) of
        Inl e \<Rightarrow> Inl e
      | Inr (i, ready) \<Rightarrow> Inr (w\<lparr>isect := i, fulfilled := ready\<rparr>))"
| "system_step (VehicleHasLeft vehicle) w = Inr (w\<lparr>isect := vehicleHasLeft vehicle (isect w)\<rparr>)"
| "system_step (EnqueueNew vehicle) w = Inr (snd (enqueue_new vehicle w))"
| "system_step ReceivePhase w = Inr (snd (receive_phase w))"
| "system_step TogglePhase w =
     Inr (w\<lparr>isect := (isect w)\<lparr>trafficLight := togglePhase (trafficLight (isect w))\<rparr>\<rparr>)"
| "system_step (AddStreet street) w = Inr (w\<lparr>isect := addStreet street (isect w)\<rparr>)"

text \<open>A grant is a call of \<^verbatim>\<open>set_value\<close>: it shows as a change of the ready shared states.\<close>

definition grant_issued :: "('v, 's) world \<Rightarrow> ('v, 's) world \<Rightarrow> bool" where
  "grant_issued w w' = (fulfilled w' \<noteq> fulfilled w)"

text \<open>
  One call of \<^verbatim>\<open>addVehicleToQueue\<close>, as the thread that runs it: where the call stands,
  and what it has observed so far. The call stands before \<^verbatim>\<open>pushBack\<close>, in
  \<^verbatim>\<open>ftrVehicleAllowedToEnter.wait()\<close>, before \<^verbatim>\<open>getCurrentPhase()\<close>, in the loop of
  \<^verbatim>\<open>waitForGreen\<close>, or it has returned. A step that blocks leaves everything as it is.
  The mutex \<^verbatim>\<open>_mtx\<close> is left out: it only delays steps of the callers.
\<close>

datatype avq_pc = AtPushBack | AtFutureWait nat | AtPhaseCheck | InWaitForGreen | Returned

datatype avq_event =
    Enqueued nat
  | Granted nat
  | PhaseRead TrafficLightPhase
  | Received TrafficLightPhase

fun addVehicleToQueue_step ::
  "'v \<Rightarrow> ('v, 's) world \<Rightarrow> avq_pc \<Rightarrow> ('v, 's) world \<times> avq_pc \<times> avq_event list" where
  "addVehicleToQueue_step vehicle w AtPushBack =
     (case enqueue_new vehicle w of (p, w') \<Rightarrow> (w', AtFutureWait p, [Enqueued p]))"
| "addVehicleToQueue_step vehicle w (AtFutureWait p) =
     (if is_ready (fulfilled w) p then (w, AtPhaseCheck, [Granted p])
      else (w, AtFutureWait p, []))"
| "addVehicleToQueue_step vehicle w AtPhaseCheck =
     (let phase = getCurrentPhase (trafficLight (isect w)) in
      if phase = red then (w, InWaitForGreen, [PhaseRead phase])
      else (w, Returned, [PhaseRead phase]))"
| "addVehicleToQueue_step vehicle w InWaitForGreen =
     (case receive_phase w of
        (None, w') \<Rightarrow> (w', InWaitForGreen, [])
      | (Some phase, w') \<Rightarrow>
          if phase = green then (w', Returned, [Received phase])
          else (w', InWaitForGreen, [Received phase]))"
| "addVehicleToQueue_step vehicle w Returned = (w, Returned, [])"

text \<open>
  A schedule interleaves the steps of the call with the steps of all other threads. The
  run keeps, for every observation of the call, the shared state before and after the
  step that made it.
\<close>

datatype ('v, 's) turn = Caller | Other "('v, 's) action"

type_synonym ('v, 's) observation = "('v, 's) world \<times> avq_event \<times> ('v, 's) world"

fun run_call ::
  "'v \<Rightarrow> ('v, 's) turn list \<Rightarrow> ('v, 's) world \<times> avq_pc \<times> ('v, 's) observation list \<Rightarrow>
     error + (('v, 's) world \<times> avq_pc \<times> ('v, 's) observation list)" where
  "run_call vehicle [] c = Inr c"
| "run_call vehicle (Caller # ts) (w, pc, trace) =
     (case addVehicleToQueue_step vehicle w pc of
        (w', pc', es) \<Rightarrow> run_call vehicle ts (w', pc', trace @ map (\<lambda>e. (w, e, w')) es))"
| "run_call vehicle (Other a # ts) (w, pc, trace) =
     (case system_step a w of
        Inl e \<Rightarrow> Inl e
      | Inr w' \<Rightarrow> run_call vehicle ts (w', pc, trace))"

text \<open>The events of a trace, in order.\<close>

definition events :: "('v, 's) observation list \<Rightarrow> avq_event list" where
  "events trace = map (\<lambda>t. fst (snd t)) trace"

text \<open>
  What an observation says about the shared state \<open>w\<close> before and \<open>w'\<close> after its step:
  the request was enqueued at the tail with a promise whose shared state is new (not
  ready, owned by no promise in the queue); the future's shared state was ready; the
  phase read was the current phase; the value was taken from the channel by a
  \<^verbatim>\<open>receive\<close>.
\<close>

fun happened :: "'v \<Rightarrow> ('v, 's) observation \<Rightarrow> bool" where
  "happened vehicle (w, Enqueued p, w') =
     (\<not> is_ready (fulfilled w) p \<and>
      Promise p \<notin> set (promises (waitingVehicles (isect w))) \<and>
      waitingVehicles (isect w') = pushBack vehicle (Promise p) (waitingVehicles (isect w)))"
| "happened vehicle (w, Granted p, w') = (is_ready (fulfilled w) p \<and> w' = w)"
| "happened vehicle (w, PhaseRead phase, w') =
     (getCurrentPhase (trafficLight (isect w)) = phase \<and> w' = w)"
| "happened vehicle (w, Received phase, w') =
     (receive (queue (trafficLight (isect w))) = Some (phase, queue (trafficLight (isect w'))))"

text \<open>
  Every shared state in use has been created: the ready ones, and those owned by the
  promises in the queue. It holds in \<open>new_world\<close> and every step keeps it.
\<close>

fun created_before :: "nat \<Rightarrow> promise \<Rightarrow> bool" where
  "created_before n (Promise i) = (i < n)"
| "created_before n NoState = True"

definition shared_states_created :: "('v, 's) world \<Rightarrow> bool" where
  "shared_states_created w =
     ((\<forall>i \<in> set (fulfilled w). i < created w) \<and>
      (\<forall>p \<in> set (promises (waitingVehicles (isect w))). created_before (created w) p))"

text \<open>
  The events a call has observed when it stands at a given place: the invariant of a run.
\<close>

fun events_at :: "avq_pc \<Rightarrow> avq_event list \<Rightarrow> bool" where
  "events_at AtPushBack es = (es = [])"
| "events_at (AtFutureWait p) es = (es = [Enqueued p])"
| "events_at AtPhaseCheck es = (\<exists>p. es = [Enqueued p, Granted p])"
| "events_at InWaitForGreen es =
     (\<exists>p k. es = [Enqueued p, Granted p, PhaseRead red] @ replicate k (Received red))"
| "events_at Returned es =
     (\<exists>p. es = [Enqueued p, Granted p, PhaseRead green] \<or>
          (\<exists>k. es = [Enqueued p, Granted p, PhaseRead red] @ replicate k (Received red)
                       @ [Received green]))"

section \<open>The waiting vehicles\<close>

lemma getSize_pos_nonempty: "0 < getSize q \<Longrightarrow> vehicles q \<noteq> []"
  by (auto simp: getSize_def)

lemma waiting_pushBack:
  "length (vehicles q) = length (promises q) \<Longrightarrow> waiting (pushBack v p q) = waiting q @ [(v, p)]"
  by (simp add: waiting_def pushBack_def)

lemma permitEntry_Inr:
  "permitEntryToFirstInQueue (q, ready) = Inr (q', ready') \<longleftrightarrow>
     (\<exists>v vs i ps. vehicles q = v # vs \<and> promises q = Promise i # ps \<and> i \<notin> set ready \<and>
        q' = q\<lparr>vehicles := vs, promises := ps\<rparr> \<and> ready' = ready @ [i])"
  by (auto simp: permitEntryToFirstInQueue_def set_value_def Let_def
      split: list.splits sum.splits promise.splits if_splits)

lemma permitEntry_EmptyFrontAccess:
  "permitEntryToFirstInQueue (q, ready) = Inl EmptyFrontAccess \<longleftrightarrow>
     promises q = [] \<or> (\<exists>i. hd (promises q) = Promise i \<and> i \<notin> set ready \<and> vehicles q = [])"
  by (auto simp: permitEntryToFirstInQueue_def set_value_def Let_def
      split: list.splits sum.splits promise.splits if_splits)

lemma run_ops_general:
  "run_ops ops (q, ready) = Inr (q', ready') \<Longrightarrow> length (vehicles q) = length (promises q) \<Longrightarrow>
     length (vehicles q') = length (promises q') \<and>
     grants ops \<le> length (waiting q @ enqueued ops) \<and>
     waiting q' = drop (grants ops) (waiting q @ enqueued ops) \<and>
     map Promise ready' = map Promise ready @ map snd (take (grants ops) (waiting q @ enqueued ops))"
proof (induction ops arbitrary: q ready)
  case Nil
  then show ?case by simp
next
  case (Cons a ops)
  show ?case
  proof (cases a)
    case (PushBack v p)
    with Cons.prems have run: "run_ops ops (pushBack v p q, ready) = Inr (q', ready')"
      by simp
    have len: "length (vehicles (pushBack v p q)) = length (promises (pushBack v p q))"
      using Cons.prems(2) by (simp add: pushBack_def)
    from Cons.IH[OF run len] waiting_pushBack[OF Cons.prems(2), of v p] PushBack
    show ?thesis by simp
  next
    case PermitEntry
    with Cons.prems obtain s1 where p1: "permitEntryToFirstInQueue (q, ready) = Inr s1"
      and run: "run_ops ops s1 = Inr (q', ready')"
      by (auto split: sum.splits)
    obtain q1 r1 where s1: "s1 = (q1, r1)" by (cases s1)
    from p1 s1 obtain v vs i ps where h: "vehicles q = v # vs" "promises q = Promise i # ps"
      "q1 = q\<lparr>vehicles := vs, promises := ps\<rparr>" "r1 = ready @ [i]"
      by (auto simp: permitEntry_Inr)
    have len: "length (vehicles q1) = length (promises q1)"
      using Cons.prems(2) h by simp
    have w: "waiting q = (v, Promise i) # waiting q1"
      using h by (simp add: waiting_def)
    from Cons.IH[OF run[unfolded s1] len] w h PermitEntry
    show ?thesis by simp
  qed
qed

lemma run_ops_from_new:
  assumes "run_ops ops (no_vehicles, []) = Inr (q, ready)"
  shows "length (vehicles q) = length (promises q)"
    and "grants ops \<le> length (enqueued ops)"
    and "waiting q = drop (grants ops) (enqueued ops)"
    and "map Promise ready = map snd (take (grants ops) (enqueued ops))"
  using run_ops_general[OF assms] by (simp_all add: no_vehicles_def waiting_def)

lemma enqueued_in_ops: "(v, p) \<in> set (enqueued ops) \<Longrightarrow> PushBack v p \<in> set ops"
  by (induction ops rule: enqueued.induct) auto

text \<open>
  C1. Grants are first in, first out. A history of \<^verbatim>\<open>pushBack\<close> and
  \<^verbatim>\<open>permitEntryToFirstInQueue\<close> calls that runs from the empty queue leaves waiting exactly
  the requests enqueued after the first \<open>grants ops\<close> ones, in arrival order; the shared
  states made ready are, in order, those of the first \<open>grants ops\<close> requests, so the
  \<open>i\<close>-th grant goes to the \<open>i\<close>-th enqueued request. From the state reached,
  \<^verbatim>\<open>pushBack\<close> appends the new request at the tail, and \<^verbatim>\<open>permitEntryToFirstInQueue\<close>
  removes the head request and makes its shared state ready, leaving the rest as it was.
\<close>

theorem grants_are_fifo:
  assumes "run_ops ops (no_vehicles, []) = Inr (q, ready)"
  shows "waiting q = drop (grants ops) (enqueued ops) \<and>
         map Promise ready = map snd (take (grants ops) (enqueued ops)) \<and>
         grants ops \<le> length (enqueued ops) \<and>
         length ready = grants ops \<and>
         (\<forall>i < grants ops. Promise (ready ! i) = snd (enqueued ops ! i)) \<and>
         (\<forall>v p. waiting (pushBack v p q) = waiting q @ [(v, p)]) \<and>
         (\<forall>q' ready'. permitEntryToFirstInQueue (q, ready) = Inr (q', ready') \<longrightarrow>
            (\<exists>v i. waiting q = (v, Promise i) # waiting q' \<and> ready' = ready @ [i]))"
proof -
  note r = run_ops_from_new[OF assms]
  have len: "length ready = grants ops"
    using r(2) arg_cong[OF r(4), of length] by simp
  have nth: "\<forall>i < grants ops. Promise (ready ! i) = snd (enqueued ops ! i)"
  proof (intro allI impI)
    fix i assume i: "i < grants ops"
    have "Promise (ready ! i) = map Promise ready ! i"
      using i len by simp
    also have "\<dots> = map snd (take (grants ops) (enqueued ops)) ! i"
      by (simp only: r(4))
    also have "\<dots> = snd (enqueued ops ! i)"
      using i r(2) by simp
    finally show "Promise (ready ! i) = snd (enqueued ops ! i)" .
  qed
  have push: "\<forall>v p. waiting (pushBack v p q) = waiting q @ [(v, p)]"
    using waiting_pushBack[OF r(1)] by simp
  have permit: "\<forall>q' ready'. permitEntryToFirstInQueue (q, ready) = Inr (q', ready') \<longrightarrow>
            (\<exists>v i. waiting q = (v, Promise i) # waiting q' \<and> ready' = ready @ [i])"
    by (auto simp: permitEntry_Inr waiting_def)
  from r(3) r(4) r(2) len nth push permit show ?thesis by blast
qed

theorem grants_are_fifo_witness:
  "run_ops [PushBack (10::nat) (Promise 0), PushBack 20 (Promise 1), PermitEntry,
            PushBack 30 (Promise 2), PermitEntry] (no_vehicles, [])
     = Inr (\<lparr>vehicles = [30], promises = [Promise 2]\<rparr>, [0, 1]) \<and>
   enqueued [PushBack (10::nat) (Promise 0), PushBack 20 (Promise 1), PermitEntry,
             PushBack 30 (Promise 2), PermitEntry]
     = [(10, Promise 0), (20, Promise 1), (30, Promise 2)] \<and>
   grants [PushBack (10::nat) (Promise 0), PushBack 20 (Promise 1), PermitEntry,
           PushBack 30 (Promise 2), PermitEntry] = 2 \<and>
   waiting \<lparr>vehicles = [30::nat], promises = [Promise 2]\<rparr>
     = drop 2 [(10, Promise 0), (20, Promise 1), (30, Promise 2)] \<and>
   map Promise [0, 1]
     = map snd (take 2 [(10::nat, Promise 0), (20, Promise 1), (30, Promise 2)])"
proof -
  let ?ops = "[PushBack (10::nat) (Promise 0), PushBack 20 (Promise 1), PermitEntry,
               PushBack 30 (Promise 2), PermitEntry]"
  have run: "run_ops ?ops (no_vehicles, [])
     = Inr (\<lparr>vehicles = [30], promises = [Promise 2]\<rparr>, [0, 1])"
    by (simp add: no_vehicles_def pushBack_def permitEntryToFirstInQueue_def set_value_def)
  have enq: "enqueued ?ops = [(10, Promise 0), (20, Promise 1), (30, Promise 2)]"
    by simp
  have gr: "grants ?ops = 2"
    by simp
  from grants_are_fifo[OF run] run enq gr show ?thesis
    by simp
qed

text \<open>
  C10. The two sequences of \<^verbatim>\<open>WaitingVehicles\<close> stay aligned. After a history of
  \<^verbatim>\<open>pushBack\<close> and \<^verbatim>\<open>permitEntryToFirstInQueue\<close> calls that runs from the empty queue,
  \<^verbatim>\<open>_vehicles\<close> and \<^verbatim>\<open>_promises\<close> have the same length, and a grant from there removes
  the head vehicle together with the promise that the same \<^verbatim>\<open>pushBack\<close> call enqueued
  with it, makes that promise's shared state ready, and leaves the lengths equal.
\<close>

theorem sequences_stay_aligned:
  assumes "run_ops ops (no_vehicles, []) = Inr (q, ready)"
  shows "length (vehicles q) = length (promises q) \<and>
         (\<forall>q' ready'. permitEntryToFirstInQueue (q, ready) = Inr (q', ready') \<longrightarrow>
            (\<exists>v i. vehicles q = v # vehicles q' \<and> promises q = Promise i # promises q' \<and>
               ready' = ready @ [i] \<and>
               grants ops < length (enqueued ops) \<and>
               enqueued ops ! grants ops = (v, Promise i) \<and>
               PushBack v (Promise i) \<in> set ops \<and>
               length (vehicles q') = length (promises q')))"
proof -
  note r = run_ops_from_new[OF assms]
  have "\<exists>v i. vehicles q = v # vehicles q' \<and> promises q = Promise i # promises q' \<and>
               ready' = ready @ [i] \<and>
               grants ops < length (enqueued ops) \<and>
               enqueued ops ! grants ops = (v, Promise i) \<and>
               PushBack v (Promise i) \<in> set ops \<and>
               length (vehicles q') = length (promises q')"
    if p: "permitEntryToFirstInQueue (q, ready) = Inr (q', ready')" for q' ready'
  proof -
    from p obtain v vs i ps where h: "vehicles q = v # vs" "promises q = Promise i # ps"
      "q' = q\<lparr>vehicles := vs, promises := ps\<rparr>" "ready' = ready @ [i]"
      by (auto simp: permitEntry_Inr)
    have w: "drop (grants ops) (enqueued ops) = (v, Promise i) # zip vs ps"
      using r(3) h by (simp add: waiting_def)
    then have lt: "grants ops < length (enqueued ops)"
      by (cases "grants ops < length (enqueued ops)") auto
    have nth: "enqueued ops ! grants ops = (v, Promise i)"
      using hd_drop_conv_nth[OF lt] w by simp
    then have "(v, Promise i) \<in> set (enqueued ops)"
      using lt nth_mem by fastforce
    then have mem: "PushBack v (Promise i) \<in> set ops"
      by (rule enqueued_in_ops)
    have len': "length (vehicles q') = length (promises q')"
      using r(1) h by simp
    from h lt nth mem len' show ?thesis by simp
  qed
  with r(1) show ?thesis by blast
qed

theorem sequences_stay_aligned_witness:
  "run_ops [PushBack (10::nat) (Promise 0), PushBack 20 (Promise 1), PermitEntry]
     (no_vehicles, []) = Inr (\<lparr>vehicles = [20], promises = [Promise 1]\<rparr>, [0]) \<and>
   length (vehicles \<lparr>vehicles = [20::nat], promises = [Promise 1]\<rparr>)
     = length (promises \<lparr>vehicles = [20::nat], promises = [Promise 1]\<rparr>) \<and>
   permitEntryToFirstInQueue (\<lparr>vehicles = [20::nat], promises = [Promise 1]\<rparr>, [0])
     = Inr (\<lparr>vehicles = [], promises = []\<rparr>, [0, 1]) \<and>
   enqueued [PushBack (10::nat) (Promise 0), PushBack 20 (Promise 1), PermitEntry]
     ! grants [PushBack (10::nat) (Promise 0), PushBack 20 (Promise 1), PermitEntry]
     = (20, Promise 1)"
proof -
  have run: "run_ops [PushBack (10::nat) (Promise 0), PushBack 20 (Promise 1), PermitEntry]
     (no_vehicles, []) = Inr (\<lparr>vehicles = [20], promises = [Promise 1]\<rparr>, [0])"
    by (simp add: no_vehicles_def pushBack_def permitEntryToFirstInQueue_def set_value_def)
  have permit: "permitEntryToFirstInQueue (\<lparr>vehicles = [20::nat], promises = [Promise 1]\<rparr>, [0])
     = Inr (\<lparr>vehicles = [], promises = []\<rparr>, [0, 1])"
    by (simp add: permitEntryToFirstInQueue_def set_value_def)
  from sequences_stay_aligned[OF run] run permit show ?thesis
    by auto
qed

lemma processVehicleQueue_pass_EmptyFrontAccess:
  assumes "length (vehicles (waitingVehicles i)) = length (promises (waitingVehicles i))"
  shows "processVehicleQueue_pass (i, ready) \<noteq> Inl EmptyFrontAccess"
proof (cases "0 < getSize (waitingVehicles i) \<and> \<not> isBlocked i")
  case True
  then have "vehicles (waitingVehicles i) \<noteq> []"
    by (simp add: getSize_pos_nonempty)
  with assms have "permitEntryToFirstInQueue (waitingVehicles i, ready) \<noteq> Inl EmptyFrontAccess"
    by (auto simp: permitEntry_EmptyFrontAccess)
  with True show ?thesis
    by (auto simp: processVehicleQueue_pass_def setIsBlocked_def Let_def split: sum.splits)
next
  case False
  then show ?thesis
    by (auto simp: processVehicleQueue_pass_def)
qed

text \<open>
  C4. \<^verbatim>\<open>permitEntryToFirstInQueue\<close> needs a non-empty queue. In every state that a history
  of calls reaches from the empty queue: when \<^verbatim>\<open>getSize() > 0\<close>, both sequences have a
  front element and the call does not run into the access of an empty front; on the empty
  queue the call is exactly that undefined access; and a pass of the admission loop, which
  tests \<^verbatim>\<open>getSize() > 0\<close> before the call, never runs into it and calls nothing when the
  test fails.
\<close>

theorem permitEntry_needs_nonempty_queue:
  fixes q :: "'v WaitingVehicles"
  assumes "run_ops ops (no_vehicles, []) = Inr (q, ready)"
  shows "(0 < getSize q \<longrightarrow>
            vehicles q \<noteq> [] \<and> promises q \<noteq> [] \<and>
            permitEntryToFirstInQueue (q, ready) \<noteq> Inl EmptyFrontAccess) \<and>
         (vehicles q = [] \<longrightarrow> permitEntryToFirstInQueue (q, ready) = Inl EmptyFrontAccess) \<and>
         (\<forall>i :: ('v, 's) Intersection. waitingVehicles i = q \<longrightarrow>
            processVehicleQueue_pass (i, ready) \<noteq> Inl EmptyFrontAccess \<and>
            (\<not> 0 < getSize q \<longrightarrow> processVehicleQueue_pass (i, ready) = Inr (i, ready)))"
proof -
  note r = run_ops_from_new[OF assms]
  have a: "0 < getSize q \<longrightarrow>
            vehicles q \<noteq> [] \<and> promises q \<noteq> [] \<and>
            permitEntryToFirstInQueue (q, ready) \<noteq> Inl EmptyFrontAccess"
    using r(1) getSize_pos_nonempty[of q] by (auto simp: permitEntry_EmptyFrontAccess)
  have b: "vehicles q = [] \<longrightarrow> permitEntryToFirstInQueue (q, ready) = Inl EmptyFrontAccess"
    using r(1) by (auto simp: permitEntry_EmptyFrontAccess)
  have c: "processVehicleQueue_pass (i, ready) \<noteq> Inl EmptyFrontAccess \<and>
            (\<not> 0 < getSize q \<longrightarrow> processVehicleQueue_pass (i, ready) = Inr (i, ready))"
    if i: "waitingVehicles i = q" for i :: "('v, 's) Intersection"
  proof -
    have "length (vehicles (waitingVehicles i)) = length (promises (waitingVehicles i))"
      using r(1) i by simp
    then have "processVehicleQueue_pass (i, ready) \<noteq> Inl EmptyFrontAccess"
      by (rule processVehicleQueue_pass_EmptyFrontAccess)
    moreover have "processVehicleQueue_pass (i, ready) = Inr (i, ready)" if "\<not> 0 < getSize q"
      using that i by (simp add: processVehicleQueue_pass_def)
    ultimately show ?thesis by blast
  qed
  from a b c show ?thesis by blast
qed

theorem permitEntry_needs_nonempty_queue_witness:
  "run_ops [PushBack (10::nat) (Promise 0)] (no_vehicles, [])
     = Inr (\<lparr>vehicles = [10], promises = [Promise 0]\<rparr>, []) \<and>
   0 < getSize \<lparr>vehicles = [10::nat], promises = [Promise 0]\<rparr> \<and>
   permitEntryToFirstInQueue (\<lparr>vehicles = [10::nat], promises = [Promise 0]\<rparr>, [])
     \<noteq> Inl EmptyFrontAccess \<and>
   run_ops ([] :: nat wv_op list) (no_vehicles, []) = Inr (no_vehicles, []) \<and>
   permitEntryToFirstInQueue (no_vehicles :: nat WaitingVehicles, []) = Inl EmptyFrontAccess"
proof -
  have run: "run_ops [PushBack (10::nat) (Promise 0)] (no_vehicles, [])
     = Inr (\<lparr>vehicles = [10], promises = [Promise 0]\<rparr>, [])"
    by (simp add: no_vehicles_def pushBack_def)
  have size: "0 < getSize \<lparr>vehicles = [10::nat], promises = [Promise 0]\<rparr>"
    by (simp add: getSize_def)
  have run0: "run_ops ([] :: nat wv_op list) (no_vehicles, []) = Inr (no_vehicles, [])"
    by simp
  have empty: "vehicles (no_vehicles :: nat WaitingVehicles) = []"
    by (simp add: no_vehicles_def)
  from permitEntry_needs_nonempty_queue[OF run] permitEntry_needs_nonempty_queue[OF run0]
    run size run0 empty
  show ?thesis by blast
qed

section \<open>The message queue\<close>

lemma messages_send_all: "messages (send_all msgs mq) = messages mq @ msgs"
  by (induction msgs arbitrary: mq) (simp_all add: send_def)

lemma receive_n_messages:
  "receive_n n mq =
     (if n \<le> length (messages mq)
      then Some (take n (rev (messages mq)),
                 mq\<lparr>messages := take (length (messages mq) - n) (messages mq)\<rparr>)
      else None)"
proof (induction n arbitrary: mq)
  case 0
  then show ?case by simp
next
  case (Suc n)
  show ?case
  proof (cases "messages mq" rule: rev_cases)
    case Nil
    then show ?thesis by (simp add: receive_def)
  next
    case (snoc xs x)
    then have r: "receive mq = Some (x, mq\<lparr>messages := xs\<rparr>)"
      by (simp add: receive_def)
    show ?thesis
      using snoc by (simp add: r Suc.IH)
  qed
qed

text \<open>
  The traffic light turns green and then red: \<open>green\<close> is sent first, \<open>red\<close> second.
  The first of two receives returns \<open>red\<close>, the value sent last, and the second returns
  \<open>green\<close>, the value sent first: the receiver sees the two values against their send
  order.
\<close>

theorem receive_order_counterexample:
  "receive_n 2 (send_all [green, red] no_messages) = Some ([red, green], no_messages)"
  by (simp add: numeral_2_eq_2 send_def receive_def no_messages_def)

text \<open>
  C5, as the code has it. Buffered values are received newest first. On a channel built
  from the empty channel by sending \<open>msgs\<close> in order, \<open>n\<close> receives in a row, for \<open>n\<close>
  at most the number of values sent, return the \<open>n\<close> values sent last in reverse send
  order and leave the values sent before them in the channel: of two such receives the
  earlier one returns the value that was sent later. With more receives than values the
  receiver stays blocked.
\<close>

theorem receive_newest_first:
  "receive_n n (send_all msgs no_messages) =
     (if n \<le> length msgs
      then Some (take n (rev msgs), \<lparr>messages = take (length msgs - n) msgs\<rparr>)
      else None)"
  by (simp add: receive_n_messages messages_send_all no_messages_def)

section \<open>The traffic light\<close>

text \<open>
  The phase changes of \<^verbatim>\<open>cycleThroughPhases\<close>, without their timing: the light starts
  red, a change flips the phase seen by \<^verbatim>\<open>getCurrentPhase\<close> and sends the new phase, and
  after \<open>n\<close> changes the light is red for even \<open>n\<close> and green for odd \<open>n\<close>.
\<close>

lemma new_TrafficLight_red: "getCurrentPhase new_TrafficLight = red"
  by (simp add: new_TrafficLight_def getCurrentPhase_def)

lemma togglePhase_flips_and_sends:
  "getCurrentPhase (togglePhase light) = (if getCurrentPhase light = red then green else red) \<and>
   messages (queue (togglePhase light))
     = messages (queue light) @ [getCurrentPhase (togglePhase light)]"
  by (simp add: togglePhase_def getCurrentPhase_def send_def Let_def)

lemma togglePhase_alternates:
  "getCurrentPhase ((togglePhase ^^ n) new_TrafficLight) = (if even n then red else green)"
  by (induction n) (simp_all add: new_TrafficLight_red togglePhase_flips_and_sends)

section \<open>The intersection\<close>

text \<open>
  C7. \<^verbatim>\<open>vehicleHasLeft\<close> clears the blocked flag and changes nothing else: whatever the
  vehicle and whatever the flag was, the intersection afterwards is the one before with
  \<^verbatim>\<open>_isBlocked\<close> false; the waiting vehicles, the streets and the traffic light are as
  before, and as a step of the simulation it leaves the shared states of the promises
  alone.
\<close>

theorem vehicleHasLeft_frame:
  "vehicleHasLeft vehicle i = i\<lparr>isBlocked := False\<rparr> \<and>
   isBlocked (vehicleHasLeft vehicle i) = False \<and>
   waitingVehicles (vehicleHasLeft vehicle i) = waitingVehicles i \<and>
   streets (vehicleHasLeft vehicle i) = streets i \<and>
   trafficLight (vehicleHasLeft vehicle i) = trafficLight i \<and>
   system_step (VehicleHasLeft vehicle) w = Inr (w\<lparr>isect := (isect w)\<lparr>isBlocked := False\<rparr>\<rparr>)"
  by (simp add: vehicleHasLeft_def setIsBlocked_def)

lemma queryStreets_loop_by_id:
  "None \<notin> set xs \<Longrightarrow>
   queryStreets_loop getID (Some s) xs acc =
     Inr (acc @ filter (\<lambda>it. map_option getID it \<noteq> Some (getID s)) xs)"
proof (induction xs arbitrary: acc)
  case Nil
  then show ?case by simp
next
  case (Cons it rest)
  then obtain st where it: "it = Some st" by (cases it) auto
  from Cons.prems have "None \<notin> set rest" by simp
  note IH = Cons.IH[OF this]
  show ?case
    by (auto simp: it IH)
qed

text \<open>
  C8. \<^verbatim>\<open>queryStreets\<close> returns all streets but the incoming one and changes nothing. For
  an intersection whose streets are all non-null and an incoming street \<open>s\<close>, the result
  is the intersection as it was together with the streets whose ID differs from the ID of
  \<open>s\<close>, in their order in \<^verbatim>\<open>_streets\<close>; where the streets involved have pairwise
  different IDs, these are exactly the elements of \<^verbatim>\<open>_streets\<close> other than \<open>s\<close>.
\<close>

theorem queryStreets_all_but_incoming:
  assumes "None \<notin> set (streets i)"
  shows "queryStreets getID (Some s) i =
           Inr (i, filter (\<lambda>it. map_option getID it \<noteq> Some (getID s)) (streets i)) \<and>
         (inj_on getID (insert s {st. Some st \<in> set (streets i)}) \<longrightarrow>
            queryStreets getID (Some s) i = Inr (i, filter (\<lambda>it. it \<noteq> Some s) (streets i)))"
proof -
  have a: "queryStreets getID (Some s) i =
           Inr (i, filter (\<lambda>it. map_option getID it \<noteq> Some (getID s)) (streets i))"
    using queryStreets_loop_by_id[OF assms, of getID s "[]"] by (simp add: queryStreets_def)
  have b: "filter (\<lambda>it. map_option getID it \<noteq> Some (getID s)) (streets i)
         = filter (\<lambda>it. it \<noteq> Some s) (streets i)"
    if inj: "inj_on getID (insert s {st. Some st \<in> set (streets i)})"
  proof (rule filter_cong[OF refl])
    fix it assume mem: "it \<in> set (streets i)"
    with assms obtain st where it: "it = Some st" by (cases it) auto
    with mem have st: "st \<in> insert s {st. Some st \<in> set (streets i)}" by simp
    have s: "s \<in> insert s {st. Some st \<in> set (streets i)}" by simp
    have "getID st = getID s \<longleftrightarrow> st = s"
      using inj_on_eq_iff[OF inj st s] .
    then show "(map_option getID it \<noteq> Some (getID s)) = (it \<noteq> Some s)"
      by (simp add: it)
  qed
  from a b show ?thesis by simp
qed

theorem queryStreets_all_but_incoming_witness:
  "None \<notin> set (streets ((new_Intersection :: (nat, nat) Intersection)
       \<lparr>streets := [Some 1, Some 2, Some 3]\<rparr>)) \<and>
   inj_on int (insert 2 {st. Some st \<in> set (streets ((new_Intersection :: (nat, nat) Intersection)
       \<lparr>streets := [Some 1, Some 2, Some 3]\<rparr>))}) \<and>
   queryStreets int (Some 2) ((new_Intersection :: (nat, nat) Intersection)
       \<lparr>streets := [Some 1, Some 2, Some 3]\<rparr>)
     = Inr ((new_Intersection :: (nat, nat) Intersection)\<lparr>streets := [Some 1, Some 2, Some 3]\<rparr>,
            [Some 1, Some 3])"
proof -
  have nn: "None \<notin> set (streets ((new_Intersection :: (nat, nat) Intersection)
       \<lparr>streets := [Some 1, Some 2, Some 3]\<rparr>))"
    by simp
  have inj: "inj_on int (insert 2 {st. Some st \<in> set (streets
       ((new_Intersection :: (nat, nat) Intersection)\<lparr>streets := [Some 1, Some 2, Some 3]\<rparr>))})"
    by (simp add: inj_on_def)
  from queryStreets_all_but_incoming[OF nn, of int 2] nn inj show ?thesis
    by simp
qed

section \<open>The admission loop\<close>

lemma processVehicleQueue_pass_Inr:
  "processVehicleQueue_pass (i, ready) = Inr (i', ready') \<longleftrightarrow>
     (if 0 < getSize (waitingVehicles i) \<and> \<not> isBlocked i
      then \<exists>v vs p ps. vehicles (waitingVehicles i) = v # vs \<and>
             promises (waitingVehicles i) = Promise p # ps \<and> p \<notin> set ready \<and>
             i' = i\<lparr>isBlocked := True,
                    waitingVehicles := (waitingVehicles i)\<lparr>vehicles := vs, promises := ps\<rparr>\<rparr> \<and>
             ready' = ready @ [p]
      else i' = i \<and> ready' = ready)"
proof (cases "0 < getSize (waitingVehicles i) \<and> \<not> isBlocked i")
  case True
  have "(case permitEntryToFirstInQueue (waitingVehicles i, ready) of
           Inl e \<Rightarrow> Inl e
         | Inr (q, r) \<Rightarrow> Inr (i\<lparr>isBlocked := True, waitingVehicles := q\<rparr>, r)) = Inr (i', ready')
        \<longleftrightarrow> (\<exists>q. permitEntryToFirstInQueue (waitingVehicles i, ready) = Inr (q, ready') \<and>
                 i' = i\<lparr>isBlocked := True, waitingVehicles := q\<rparr>)"
    by (auto split: sum.splits)
  with True show ?thesis
    by (auto simp: processVehicleQueue_pass_def setIsBlocked_def permitEntry_Inr)
next
  case False
  then show ?thesis
    by (auto simp: processVehicleQueue_pass_def)
qed

lemma system_step_ProcessVehicleQueue:
  assumes "system_step ProcessVehicleQueue w = Inr w'"
  shows "(0 < getSize (waitingVehicles (isect w)) \<and> \<not> isBlocked (isect w) \<and>
          isBlocked (isect w') \<and>
          (\<exists>p ps. promises (waitingVehicles (isect w)) = Promise p # ps \<and>
             promises (waitingVehicles (isect w')) = ps \<and>
             fulfilled w' = fulfilled w @ [p]) \<and> created w' = created w) \<or> w' = w"
proof -
  from assms obtain i r where p: "processVehicleQueue_pass (isect w, fulfilled w) = Inr (i, r)"
    and w': "w' = w\<lparr>isect := i, fulfilled := r\<rparr>"
    by (auto split: sum.splits)
  show ?thesis
  proof (cases "0 < getSize (waitingVehicles (isect w)) \<and> \<not> isBlocked (isect w)")
    case True
    with p w' show ?thesis
      by (auto simp: processVehicleQueue_pass_Inr)
  next
    case False
    with p w' show ?thesis
      by (simp add: processVehicleQueue_pass_Inr)
  qed
qed

lemma system_step_others:
  assumes "system_step a w = Inr w'" and "a \<noteq> ProcessVehicleQueue"
  shows "fulfilled w' = fulfilled w"
    and "(\<forall>vehicle. a \<noteq> VehicleHasLeft vehicle) \<longrightarrow> isBlocked (isect w') = isBlocked (isect w)"
    and "\<not> isBlocked (isect w) \<longrightarrow> \<not> isBlocked (isect w')"
  using assms
  by (cases a; auto simp: vehicleHasLeft_def setIsBlocked_def enqueue_new_def
        receive_phase_def addStreet_def split: prod.splits)+

text \<open>
  C2. The blocked flag as a gate. In a step of the simulation that succeeds: if a grant is
  issued, the step is a pass of the admission loop, the intersection was not blocked
  before and is blocked after; if the intersection goes from blocked to not blocked, the
  step is \<^verbatim>\<open>vehicleHasLeft\<close>; if it goes from not blocked to blocked, the step is a pass of
  the admission loop that issues a grant. So no grant is issued while the intersection is
  blocked, and the flag only changes on a grant and on a departure.
\<close>

theorem occupied_gate_transitions:
  assumes "system_step a w = Inr w'"
  shows "(grant_issued w w' \<longrightarrow>
            a = ProcessVehicleQueue \<and> \<not> isBlocked (isect w) \<and> isBlocked (isect w')) \<and>
         (isBlocked (isect w) \<and> \<not> isBlocked (isect w') \<longrightarrow>
            (\<exists>vehicle. a = VehicleHasLeft vehicle)) \<and>
         (\<not> isBlocked (isect w) \<and> isBlocked (isect w') \<longrightarrow>
            a = ProcessVehicleQueue \<and> grant_issued w w')"
proof (cases "a = ProcessVehicleQueue")
  case True
  with system_step_ProcessVehicleQueue[of w w'] assms show ?thesis
    by (auto simp: grant_issued_def)
next
  case False
  from system_step_others[OF assms False] False show ?thesis
    by (auto simp: grant_issued_def)
qed

theorem occupied_gate_transitions_witness:
  "system_step ProcessVehicleQueue (snd (enqueue_new (7::nat) (new_world :: (nat, nat) world)))
     = Inr \<lparr>isect = \<lparr>streets = [], waitingVehicles = \<lparr>vehicles = [], promises = []\<rparr>,
                      isBlocked = True, trafficLight = new_TrafficLight\<rparr>,
            fulfilled = [0], created = 1\<rparr> \<and>
   grant_issued (snd (enqueue_new (7::nat) (new_world :: (nat, nat) world)))
     \<lparr>isect = \<lparr>streets = [], waitingVehicles = \<lparr>vehicles = [], promises = []\<rparr>,
               isBlocked = True, trafficLight = new_TrafficLight\<rparr>,
      fulfilled = [0], created = 1\<rparr> \<and>
   \<not> isBlocked (isect (snd (enqueue_new (7::nat) (new_world :: (nat, nat) world)))) \<and>
   system_step (VehicleHasLeft 7)
     \<lparr>isect = \<lparr>streets = [], waitingVehicles = \<lparr>vehicles = [], promises = []\<rparr>,
               isBlocked = True, trafficLight = new_TrafficLight\<rparr>,
      fulfilled = [0], created = 1\<rparr>
     = Inr \<lparr>isect = \<lparr>streets = ([] :: nat option list),
                      waitingVehicles = \<lparr>vehicles = ([] :: nat list), promises = []\<rparr>,
                      isBlocked = False, trafficLight = new_TrafficLight\<rparr>,
            fulfilled = [0], created = 1\<rparr>"
proof -
  let ?w1 = "snd (enqueue_new (7::nat) (new_world :: (nat, nat) world))"
  let ?w2 = "\<lparr>isect = \<lparr>streets = ([] :: nat option list),
                       waitingVehicles = \<lparr>vehicles = ([] :: nat list), promises = []\<rparr>,
                       isBlocked = True, trafficLight = new_TrafficLight\<rparr>,
             fulfilled = [0], created = 1\<rparr>"
  let ?w3 = "\<lparr>isect = \<lparr>streets = ([] :: nat option list),
                       waitingVehicles = \<lparr>vehicles = ([] :: nat list), promises = []\<rparr>,
                       isBlocked = False, trafficLight = new_TrafficLight\<rparr>,
             fulfilled = [0], created = 1\<rparr>"
  have grant: "system_step ProcessVehicleQueue ?w1 = Inr ?w2"
    by (simp add: new_world_def new_Intersection_def no_vehicles_def enqueue_new_def
        pushBack_def processVehicleQueue_pass_def getSize_def setIsBlocked_def
        permitEntryToFirstInQueue_def set_value_def)
  have leave: "system_step (VehicleHasLeft 7) ?w2 = Inr ?w3"
    by (simp add: vehicleHasLeft_def setIsBlocked_def)
  have free: "\<not> isBlocked (isect ?w1)"
    by (simp add: new_world_def new_Intersection_def enqueue_new_def)
  have issued: "grant_issued ?w1 ?w2"
    by (simp add: grant_issued_def new_world_def enqueue_new_def)
  from occupied_gate_transitions[OF grant] occupied_gate_transitions[OF leave]
    grant leave free issued
  show ?thesis by blast
qed

section \<open>A call of addVehicleToQueue\<close>

lemma created_fresh:
  assumes "shared_states_created w"
  shows "created w \<notin> set (fulfilled w)"
    and "Promise (created w) \<notin> set (promises (waitingVehicles (isect w)))"
proof -
  show "created w \<notin> set (fulfilled w)"
  proof
    assume "created w \<in> set (fulfilled w)"
    with assms have "created w < created w"
      unfolding shared_states_created_def by blast
    then show False by simp
  qed
  show "Promise (created w) \<notin> set (promises (waitingVehicles (isect w)))"
  proof
    assume "Promise (created w) \<in> set (promises (waitingVehicles (isect w)))"
    with assms have "created_before (created w) (Promise (created w))"
      unfolding shared_states_created_def by blast
    then show False by simp
  qed
qed

lemma enqueue_new_created:
  assumes "shared_states_created w"
  shows "shared_states_created (snd (enqueue_new vehicle w))"
proof -
  have "created_before (Suc n) p" if "created_before n p" for n p
    using that by (cases p) auto
  with assms show ?thesis
    by (auto simp: shared_states_created_def enqueue_new_def pushBack_def less_Suc_eq)
qed

lemma system_step_created:
  assumes "system_step a w = Inr w'" and "shared_states_created w"
  shows "shared_states_created w'"
proof (cases a)
  case ProcessVehicleQueue
  from system_step_ProcessVehicleQueue[OF assms(1)[unfolded ProcessVehicleQueue]]
  show ?thesis
  proof
    assume h: "0 < getSize (waitingVehicles (isect w)) \<and> \<not> isBlocked (isect w) \<and>
          isBlocked (isect w') \<and>
          (\<exists>p ps. promises (waitingVehicles (isect w)) = Promise p # ps \<and>
             promises (waitingVehicles (isect w')) = ps \<and>
             fulfilled w' = fulfilled w @ [p]) \<and> created w' = created w"
    then obtain p ps where ps: "promises (waitingVehicles (isect w)) = Promise p # ps"
      "promises (waitingVehicles (isect w')) = ps" "fulfilled w' = fulfilled w @ [p]"
      "created w' = created w"
      by blast
    from assms(2) ps(1) have "p < created w"
      and "\<forall>x \<in> set ps. created_before (created w) x"
      and "\<forall>i \<in> set (fulfilled w). i < created w"
      unfolding shared_states_created_def by simp_all
    with ps show ?thesis
      unfolding shared_states_created_def by simp
  next
    assume "w' = w"
    with assms(2) show ?thesis by simp
  qed
next
  case (EnqueueNew vehicle)
  with assms enqueue_new_created[of w vehicle] show ?thesis
    by simp
next
  case (VehicleHasLeft vehicle)
  with assms show ?thesis
    by (auto simp: shared_states_created_def vehicleHasLeft_def setIsBlocked_def)
next
  case ReceivePhase
  with assms show ?thesis
    by (auto simp: shared_states_created_def receive_phase_def split: prod.splits)
next
  case TogglePhase
  with assms show ?thesis
    by (auto simp: shared_states_created_def)
next
  case (AddStreet street)
  with assms show ?thesis
    by (auto simp: shared_states_created_def addStreet_def)
qed

lemma caller_step:
  assumes "addVehicleToQueue_step vehicle w pc = (w', pc', es)"
    and "shared_states_created w" and "events_at pc evs"
  shows "events_at pc' (evs @ es)"
    and "\<forall>e \<in> set es. happened vehicle (w, e, w')"
    and "shared_states_created w'"
proof -
  have "events_at pc' (evs @ es) \<and> (\<forall>e \<in> set es. happened vehicle (w, e, w')) \<and>
        shared_states_created w'"
  proof (cases pc)
    case AtPushBack
    with assms(1) have r: "w' = snd (enqueue_new vehicle w)" "pc' = AtFutureWait (created w)"
      "es = [Enqueued (created w)]"
      by (auto simp: enqueue_new_def)
    have q: "waitingVehicles (isect w')
               = pushBack vehicle (Promise (created w)) (waitingVehicles (isect w))"
      using r(1) by (simp add: enqueue_new_def)
    from r q AtPushBack assms(3) created_fresh[OF assms(2)] enqueue_new_created[OF assms(2)]
    show ?thesis
      by (simp add: is_ready_def)
  next
    case (AtFutureWait p)
    with assms show ?thesis
      by (auto split: if_splits)
  next
    case AtPhaseCheck
    with assms show ?thesis
      by (cases "getCurrentPhase (trafficLight (isect w))") (auto simp: Let_def)
  next
    case InWaitForGreen
    show ?thesis
    proof (cases "receive (queue (trafficLight (isect w)))")
      case None
      with InWaitForGreen assms show ?thesis
        by (auto simp: receive_phase_def waitForGreen_pass_def shared_states_created_def)
    next
      case (Some r)
      obtain phase mq where r: "r = (phase, mq)" by (cases r)
      from assms(3) InWaitForGreen obtain p k where
        evs: "evs = [Enqueued p, Granted p, PhaseRead red] @ replicate k (Received red)"
        by auto
      have rep: "replicate k (Received red) @ [Received red] = replicate (Suc k) (Received red)"
        by (simp add: replicate_append_same)
      show ?thesis
      proof (cases phase)
        case red
        with Some r InWaitForGreen assms(1,2) have
          "w' = w\<lparr>isect := (isect w)\<lparr>trafficLight := (trafficLight (isect w))\<lparr>queue := mq\<rparr>\<rparr>\<rparr>"
          "pc' = InWaitForGreen" "es = [Received red]"
          by (auto simp: receive_phase_def waitForGreen_pass_def)
        with Some r red assms(2) evs rep show ?thesis
          by (auto simp: shared_states_created_def simp del: replicate_Suc)
      next
        case green
        with Some r InWaitForGreen assms(1,2) have
          "w' = w\<lparr>isect := (isect w)\<lparr>trafficLight := (trafficLight (isect w))\<lparr>queue := mq\<rparr>\<rparr>\<rparr>"
          "pc' = Returned" "es = [Received green]"
          by (auto simp: receive_phase_def waitForGreen_pass_def)
        with Some r green assms(2) evs show ?thesis
          by (auto simp: shared_states_created_def)
      qed
    qed
  next
    case Returned
    with assms show ?thesis by auto
  qed
  then show "events_at pc' (evs @ es)"
    and "\<forall>e \<in> set es. happened vehicle (w, e, w')"
    and "shared_states_created w'"
    by blast+
qed

text \<open>
  What a step of the call does to the shared state is a step of the simulation: the
  enqueueing, a receive, or nothing.
\<close>

lemma caller_step_is_system_step:
  assumes "addVehicleToQueue_step vehicle w pc = (w', pc', es)"
  shows "w' = w \<or> system_step (EnqueueNew vehicle) w = Inr w' \<or>
         system_step ReceivePhase w = Inr w'"
proof (cases pc)
  case AtPushBack
  with assms show ?thesis
    by (auto split: prod.splits)
next
  case (AtFutureWait p)
  with assms show ?thesis
    by (auto split: if_splits)
next
  case AtPhaseCheck
  with assms show ?thesis
    by (auto simp: Let_def split: if_splits)
next
  case InWaitForGreen
  with assms show ?thesis
    by (auto split: prod.splits option.splits if_splits)
next
  case Returned
  with assms show ?thesis
    by simp
qed

lemma run_call_invariant:
  "run_call vehicle ts (w, pc, trace) = Inr (w', pc', trace') \<Longrightarrow>
   shared_states_created w \<Longrightarrow> events_at pc (events trace) \<Longrightarrow>
   \<forall>t \<in> set trace. happened vehicle t \<Longrightarrow>
   events_at pc' (events trace') \<and> (\<forall>t \<in> set trace'. happened vehicle t) \<and>
   shared_states_created w'"
proof (induction ts arbitrary: w pc trace)
  case Nil
  then show ?case by simp
next
  case (Cons t ts)
  show ?case
  proof (cases t)
    case Caller
    obtain w1 pc1 es where step: "addVehicleToQueue_step vehicle w pc = (w1, pc1, es)"
      by (cases "addVehicleToQueue_step vehicle w pc")
    with Cons.prems(1) Caller
    have run: "run_call vehicle ts (w1, pc1, trace @ map (\<lambda>e. (w, e, w1)) es)
                 = Inr (w', pc', trace')"
      by simp
    note c = caller_step[OF step Cons.prems(2,3)]
    have ev: "events_at pc1 (events (trace @ map (\<lambda>e. (w, e, w1)) es))"
      using c(1) by (simp add: events_def comp_def)
    have hp: "\<forall>t \<in> set (trace @ map (\<lambda>e. (w, e, w1)) es). happened vehicle t"
      using c(2) Cons.prems(4) by auto
    from Cons.IH[OF run c(3) ev hp] show ?thesis .
  next
    case (Other a)
    with Cons.prems(1) obtain w1 where step: "system_step a w = Inr w1"
      and run: "run_call vehicle ts (w1, pc, trace) = Inr (w', pc', trace')"
      by (auto split: sum.splits)
    from Cons.IH[OF run system_step_created[OF step Cons.prems(2)] Cons.prems(3,4)]
    show ?thesis .
  qed
qed

text \<open>
  C3. \<^verbatim>\<open>addVehicleToQueue\<close> returns only after both gates. Take any schedule of the call
  and the other threads that starts where every shared state in use has been created. If
  the call has returned, its observations are, in order: its request enqueued at the tail
  with a new promise; the shared state of that promise found ready; then either the phase
  read as green and nothing more, or the phase read as red followed by receives from the
  channel that returned red any number of times and then green once. Each observation is
  true of the shared state at its step.
\<close>

theorem addVehicleToQueue_returns_after_both_gates:
  assumes "run_call vehicle ts (w0, AtPushBack, []) = Inr (w, Returned, trace)"
    and "shared_states_created w0"
  shows "(\<exists>p. events trace = [Enqueued p, Granted p, PhaseRead green] \<or>
              (\<exists>k. events trace = [Enqueued p, Granted p, PhaseRead red]
                       @ replicate k (Received red) @ [Received green])) \<and>
         (\<forall>t \<in> set trace. happened vehicle t)"
  using run_call_invariant[OF assms(1,2)] by (simp add: events_def)

theorem addVehicleToQueue_returns_after_both_gates_witness:
  "shared_states_created (new_world :: (nat, nat) world) \<and>
   (\<exists>w trace.
      run_call (7::nat)
        [Caller, Other ProcessVehicleQueue, Other TogglePhase, Other TogglePhase,
         Caller, Caller, Caller, Caller]
        (new_world :: (nat, nat) world, AtPushBack, []) = Inr (w, Returned, trace) \<and>
      events trace = [Enqueued 0, Granted 0, PhaseRead red, Received red, Received green] \<and>
      list_all (happened 7) trace)"
proof -
  have wf: "shared_states_created (new_world :: (nat, nat) world)"
    by (simp add: shared_states_created_def new_world_def new_Intersection_def no_vehicles_def)
  have "\<exists>w trace.
      run_call (7::nat)
        [Caller, Other ProcessVehicleQueue, Other TogglePhase, Other TogglePhase,
         Caller, Caller, Caller, Caller]
        (new_world :: (nat, nat) world, AtPushBack, []) = Inr (w, Returned, trace) \<and>
      events trace = [Enqueued 0, Granted 0, PhaseRead red, Received red, Received green]"
    by (simp add: new_world_def new_Intersection_def no_vehicles_def new_TrafficLight_def
        no_messages_def enqueue_new_def pushBack_def processVehicleQueue_pass_def getSize_def
        setIsBlocked_def permitEntryToFirstInQueue_def set_value_def togglePhase_def send_def
        is_ready_def getCurrentPhase_def receive_phase_def waitForGreen_pass_def receive_def
        events_def Let_def)
  then obtain w trace where
    run: "run_call (7::nat)
        [Caller, Other ProcessVehicleQueue, Other TogglePhase, Other TogglePhase,
         Caller, Caller, Caller, Caller]
        (new_world :: (nat, nat) world, AtPushBack, []) = Inr (w, Returned, trace)"
    and ev: "events trace = [Enqueued 0, Granted 0, PhaseRead red, Received red, Received green]"
    by blast
  from addVehicleToQueue_returns_after_both_gates[OF run wf]
  have "\<forall>t \<in> set trace. happened 7 t" by blast
  then have "list_all (happened 7) trace"
    by (simp add: list_all_iff)
  with wf run ev show ?thesis by blast
qed

end
